theory Spec2Isabelle
  imports Main
begin

unbundle bit_operations_syntax

section \<open>The staged multiply/divide unit of \<^verbatim>\<open>python/multiplier.py\<close>\<close>

text \<open>
  The source is Python 2: its integers are unbounded, so every register is an \<^typ>\<open>int\<close>
  and a register has a width only where the code masks it. \<^verbatim>\<open>x & m\<close> is \<open>AND\<close> on
  \<^typ>\<open>int\<close> (two's complement with infinitely many sign bits, as in Python),
  \<^verbatim>\<open>x >> n\<close> with a constant \<open>n\<close> is \<^const>\<open>drop_bit\<close> (floor division by \<open>2 ^ n\<close>)
  and \<^verbatim>\<open>x << n\<close> with a constant \<open>n\<close> is \<^const>\<open>push_bit\<close>.
\<close>

subsection \<open>Module constants\<close>

definition sign_bit :: int where
  "sign_bit = push_bit 31 1"

definition mask64 :: int where
  "mask64 = 0xffffffffffffffff"

definition mask32 :: int where
  "mask32 = 0xffffffff"

definition mask31 :: int where
  "mask31 = 0x7fffffff"

subsection \<open>Exceptions\<close>

text \<open>
  \<open>ValueError\<close>: a shift by a negative count. \<open>AttributeError\<close>: reading
  \<^verbatim>\<open>self.divisor\<close>, which the constructor does not create, before \<^verbatim>\<open>div_init\<close> has
  stored it. \<open>UnboundLocalError\<close>: reading \<^verbatim>\<open>mux_0123\<close> or \<^verbatim>\<open>mux_048c\<close> when none
  of the four \<^verbatim>\<open>if\<close> statements assigned it.
\<close>

datatype error = ValueError | AttributeError | UnboundLocalError

text \<open>\<^verbatim>\<open>x << n\<close> with a count computed at run time: Python raises on a negative count.\<close>

definition shl :: "int \<Rightarrow> int \<Rightarrow> error + int" where
  "shl x n = (if n < 0 then Inl ValueError else Inr (push_bit (nat n) x))"

subsection \<open>The object\<close>

text \<open>
  \<^verbatim>\<open>__init__\<close> creates four attributes; \<^verbatim>\<open>divisor\<close> exists only once \<^verbatim>\<open>div_init\<close>
  has run, hence the \<open>option\<close>.
\<close>

record multdiv =
  accumulator :: int
  multiplier :: int
  multiplicand :: int
  stage :: int
  divisor :: "int option"

definition new_multdiv :: multdiv where
  "new_multdiv = \<lparr>accumulator = 0, multiplier = 0, multiplicand = 0, stage = 0, divisor = None\<rparr>"

subsection \<open>\<^verbatim>\<open>combinatorial\<close>\<close>

text \<open>
  One of the two multiplexers: four \<^verbatim>\<open>if sel==k: mux = v\<close> statements in a row, on
  mutually exclusive conditions; when none fires the variable is unbound at its use.
\<close>

definition mux :: "int \<Rightarrow> int \<Rightarrow> int \<Rightarrow> int \<Rightarrow> int \<Rightarrow> error + int" where
  "mux sel v0 v1 v2 v3 =
     (if sel = 0 then Inr v0
      else if sel = 1 then Inr v1
      else if sel = 2 then Inr v2
      else if sel = 3 then Inr v3
      else Inl UnboundLocalError)"

text \<open>Lines 14 to 31 of the source: the two muxed partial products and their sum.\<close>

definition stage2 :: "int \<Rightarrow> int \<Rightarrow> error + int" where
  "stage2 mult4 areg =
     (let sel0123 = mult4 AND 3;
          sel048c = drop_bit 2 mult4 AND 3;
          stage1_0 = 0;
          stage1_1 = areg;
          stage1_2 = push_bit 1 areg;
          stage1_3 = stage1_2 + stage1_1;
          stage1_4 = push_bit 2 stage1_1;
          stage1_8 = push_bit 2 stage1_2;
          stage1_c = push_bit 2 stage1_3
      in case mux sel0123 stage1_0 stage1_1 stage1_2 stage1_3 of
           Inl e \<Rightarrow> Inl e
         | Inr mux_0123 \<Rightarrow>
             (case mux sel048c stage1_0 stage1_4 stage1_8 stage1_c of
                Inl e \<Rightarrow> Inl e
              | Inr mux_048c \<Rightarrow> Inr (mux_0123 + mux_048c)))"

definition combinatorial :: "int \<Rightarrow> int \<Rightarrow> bool \<Rightarrow> int \<Rightarrow> int \<Rightarrow> error + int" where
  "combinatorial mult4 areg subtract_acc acc shift =
     (case stage2 mult4 areg of
        Inl e \<Rightarrow> Inl e
      | Inr s2 \<Rightarrow>
          (case shl s2 shift of
             Inl e \<Rightarrow> Inl e
           | Inr shifted \<Rightarrow>
               Inr (if subtract_acc then (shifted - acc) AND mask64
                    else (shifted + acc) AND mask64)))"

subsection \<open>The multiply controller\<close>

text \<open>
  A method returns its outcome (an exception or a value) together with the object as the
  call leaves it: an exception keeps the stores made before it was raised.
\<close>

definition mul_init :: "int \<Rightarrow> int \<Rightarrow> bool \<Rightarrow> bool \<Rightarrow> multdiv \<Rightarrow> (error + unit) \<times> multdiv" where
  "mul_init a b sa sb s =
     (let s1 = s\<lparr>multiplier := a AND mask32, multiplicand := b AND mask32, stage := 0\<rparr>;
          acc_in = (if sa \<and> a AND sign_bit \<noteq> 0
                    then (if sb then push_bit 32 (b AND mask32) AND push_bit 32 mask31
                          else push_bit 32 (b AND mask32))
                    else 0);
          add_in = (if sb \<and> b AND sign_bit \<noteq> 0
                    then (if sa then (a AND mask32) AND mask31 else a AND mask32)
                    else 0)
      in case combinatorial 1 add_in False acc_in 32 of
           Inl e \<Rightarrow> (Inl e, s1)
         | Inr next_acc \<Rightarrow> (Inr (), s1\<lparr>accumulator := next_acc AND mask64\<rparr>))"

definition mul_step :: "multdiv \<Rightarrow> (error + bool) \<times> multdiv" where
  "mul_step s =
     (case combinatorial (multiplier s AND 15) (multiplicand s) (stage s = 0)
             (accumulator s) (stage s * 4) of
        Inl e \<Rightarrow> (Inl e, s)
      | Inr next_acc \<Rightarrow>
          (let s' = s\<lparr>accumulator := next_acc,
                      stage := stage s + 1,
                      multiplier := drop_bit 4 (multiplier s)\<rparr>
           in (Inr (multiplier s' = 0), s')))"

text \<open>
  The driver loop of \<^verbatim>\<open>test_mult\<close>, \<^verbatim>\<open>while not x.mul_step(): pass\<close>. It runs forever
  from an object whose multiplier is negative, so not returning is the value \<open>None\<close>.
\<close>

partial_function (option) mul_run :: "multdiv \<Rightarrow> ((error + unit) \<times> multdiv) option" where
  "mul_run s =
     (case mul_step s of
        (Inl e, s') \<Rightarrow> Some (Inl e, s')
      | (Inr done, s') \<Rightarrow> if done then Some (Inr (), s') else mul_run s')"

declare mul_run.simps [code]

subsection \<open>The divide controller\<close>

text \<open>
  The second definition of \<^verbatim>\<open>div_init\<close> (lines 68 to 81) is the one in effect; the
  first has the same body. Its two \<^verbatim>\<open>while\<close> loops are not bounded, so each is a
  function into \<open>option\<close> on the two attributes it updates. The closing \<^verbatim>\<open>print\<close>
  writes a trace line and changes nothing, so it has no counterpart here.
\<close>

partial_function (option) norm_divisor :: "int \<Rightarrow> int \<Rightarrow> (int \<times> int) option" where
  "norm_divisor d st =
     (if d AND sign_bit = 0 then norm_divisor (push_bit 1 d) (st + 1) else Some (d, st))"

declare norm_divisor.simps [code]

partial_function (option) norm_accumulator :: "int \<Rightarrow> int \<Rightarrow> (int \<times> int) option" where
  "norm_accumulator acc st =
     (if acc AND push_bit 32 sign_bit = 0 then norm_accumulator (push_bit 1 acc) (st - 1)
      else Some (acc, st))"

declare norm_accumulator.simps [code]

definition div_init :: "int \<Rightarrow> int \<Rightarrow> bool \<Rightarrow> multdiv \<Rightarrow> multdiv option" where
  "div_init a b signed_flag s =
     (case norm_divisor (b AND mask32) 0 of
        None \<Rightarrow> None
      | Some (d, st) \<Rightarrow>
          (case norm_accumulator (push_bit 32 (a AND mask32)) st of
             None \<Rightarrow> None
           | Some (acc, st') \<Rightarrow> Some (s\<lparr>accumulator := acc, stage := st', divisor := Some d\<rparr>)))"

definition div_step :: "multdiv \<Rightarrow> (error + bool) \<times> multdiv" where
  "div_step s =
     (case divisor s of
        None \<Rightarrow> (Inl AttributeError, s)
      | Some d \<Rightarrow>
          (case combinatorial 1 d True (accumulator s) 32 of
             Inl e \<Rightarrow> (Inl e, s)
           | Inr next_acc \<Rightarrow>
               (if next_acc \<ge> 0 \<and> stage s \<ge> 0
                then (case shl 1 (stage s) of
                        Inl e \<Rightarrow> (Inl e, s)
                      | Inr pow \<Rightarrow>
                          (Inr (stage s - 1 < 0),
                           s\<lparr>accumulator := - next_acc + pow,
                             divisor := Some (drop_bit 1 d),
                             stage := stage s - 1\<rparr>))
                else (Inr (stage s - 1 < 0),
                      s\<lparr>divisor := Some (drop_bit 1 d), stage := stage s - 1\<rparr>))))"

definition div_remainder :: "int \<Rightarrow> int \<Rightarrow> bool \<Rightarrow> multdiv \<Rightarrow> int" where
  "div_remainder a b signed_flag s = drop_bit 32 (accumulator s) AND mask32"

definition div_result :: "int \<Rightarrow> int \<Rightarrow> bool \<Rightarrow> multdiv \<Rightarrow> int" where
  "div_result a b signed_flag s = accumulator s AND mask32"

text \<open>The driver loop of \<^verbatim>\<open>test_div\<close>, \<^verbatim>\<open>while not x.div_step(): pass\<close>.\<close>

partial_function (option) div_run :: "multdiv \<Rightarrow> ((error + unit) \<times> multdiv) option" where
  "div_run s =
     (case div_step s of
        (Inl e, s') \<Rightarrow> Some (Inl e, s')
      | (Inr done, s') \<Rightarrow> if done then Some (Inr (), s') else div_run s')"

declare div_run.simps [code]

text \<open>
  \<open>calls f n\<close>: a caller that invokes the step method \<open>f\<close> up to \<open>n\<close> times whatever it
  returns, and stops at an exception. It yields the outcomes in order and the object
  left behind.
\<close>

fun calls :: "(multdiv \<Rightarrow> (error + bool) \<times> multdiv) \<Rightarrow> nat \<Rightarrow> multdiv
                \<Rightarrow> (error + bool) list \<times> multdiv" where
  "calls f 0 s = ([], s)"
| "calls f (Suc n) s =
     (case f s of
        (Inl e, s') \<Rightarrow> ([Inl e], s')
      | (Inr r, s') \<Rightarrow> (case calls f n s' of (rs, s'') \<Rightarrow> (Inr r # rs, s'')))"

text \<open>
  Lines 120 to 123 of \<^verbatim>\<open>test_mult\<close>, on any object \<open>x\<close>: \<^verbatim>\<open>mul_init\<close>, the driver loop,
  then the read of \<^verbatim>\<open>x.accumulator\<close>.
\<close>

definition mul_product :: "int \<Rightarrow> int \<Rightarrow> bool \<Rightarrow> bool \<Rightarrow> multdiv \<Rightarrow> (error + int) option" where
  "mul_product a b sa sb x =
     (case mul_init a b sa sb x of
        (Inl e, x') \<Rightarrow> Some (Inl e)
      | (Inr u, x') \<Rightarrow>
          (case mul_run x' of
             None \<Rightarrow> None
           | Some (Inl e, x'') \<Rightarrow> Some (Inl e)
           | Some (Inr u', x'') \<Rightarrow> Some (Inr (accumulator x''))))"

text \<open>
  Lines 141 to 146 of \<^verbatim>\<open>test_div\<close>: a fresh object, \<^verbatim>\<open>div_init\<close>, the driver loop, then
  the two reads. The result is the pair (quotient register, remainder register).
\<close>

definition divide :: "int \<Rightarrow> int \<Rightarrow> bool \<Rightarrow> (error + int \<times> int) option" where
  "divide a b signed_flag =
     (case div_init a b signed_flag new_multdiv of
        None \<Rightarrow> None
      | Some x \<Rightarrow>
          (case div_run x of
             None \<Rightarrow> None
           | Some (Inl e, x') \<Rightarrow> Some (Inl e)
           | Some (Inr u, x') \<Rightarrow>
               Some (Inr (div_result a b signed_flag x', div_remainder a b signed_flag x'))))"

text \<open>
  The three registers the constructor's comments and \<^verbatim>\<open>div_init\<close> declare as 32 bits
  wide, within their width; a divisor that does not exist yet counts as within.
\<close>

definition narrow_regs_ok :: "multdiv \<Rightarrow> bool" where
  "narrow_regs_ok s =
     (0 \<le> multiplier s \<and> multiplier s < 2 ^ 32
      \<and> 0 \<le> multiplicand s \<and> multiplicand s < 2 ^ 32
      \<and> (case divisor s of None \<Rightarrow> True | Some d \<Rightarrow> 0 \<le> d \<and> d < 2 ^ 32))"

text \<open>
  The two correction terms of \<^verbatim>\<open>mul_init\<close> written with \<open>mod\<close> and \<^const>\<open>bit\<close>; lemma
  \<open>mul_init_eq\<close> below proves that they are what the masks and shifts of the source compute.
\<close>

definition acc_in_of :: "int \<Rightarrow> int \<Rightarrow> bool \<Rightarrow> bool \<Rightarrow> int" where
  "acc_in_of a b sa sb =
     (if sa \<and> bit a 31 then (if sb then b mod 2 ^ 31 * 2 ^ 32 else b mod 2 ^ 32 * 2 ^ 32) else 0)"

definition add_in_of :: "int \<Rightarrow> int \<Rightarrow> bool \<Rightarrow> bool \<Rightarrow> int" where
  "add_in_of a b sa sb =
     (if sb \<and> bit b 31 then (if sa then a mod 2 ^ 31 else a mod 2 ^ 32) else 0)"

section \<open>Masks and shifts as arithmetic\<close>

lemma and_mask_mod: "m = mask n \<Longrightarrow> (x::int) AND m = x mod 2 ^ n"
  by (simp only: take_bit_eq_mask [symmetric] take_bit_eq_mod)

lemma and_mask64: "x AND mask64 = x mod 2 ^ 64"
  by (rule and_mask_mod) (simp add: mask64_def mask_eq_exp_minus_1)

lemma and_mask32: "x AND mask32 = x mod 2 ^ 32"
  by (rule and_mask_mod) (simp add: mask32_def mask_eq_exp_minus_1)

lemma and_mask31: "x AND mask31 = x mod 2 ^ 31"
  by (rule and_mask_mod) (simp add: mask31_def mask_eq_exp_minus_1)

lemma and_15: "x AND 15 = x mod (2::int) ^ 4"
  by (rule and_mask_mod) (simp add: mask_eq_exp_minus_1)

lemma and_3: "x AND 3 = x mod (2::int) ^ 2"
  by (rule and_mask_mod) (simp add: mask_eq_exp_minus_1)

lemma sign_bit_eq: "sign_bit = 2 ^ 31"
  by (simp add: sign_bit_def)

lemma top_bit_eq: "push_bit 32 sign_bit = 2 ^ 63"
  by (simp add: sign_bit_def)

lemma sign_bit_test: "x AND sign_bit = 0 \<longleftrightarrow> \<not> bit x 31"
  by (simp only: sign_bit_eq and_exp_eq_0_iff_not_bit)

lemma top_bit_test: "x AND push_bit 32 sign_bit = 0 \<longleftrightarrow> \<not> bit x 63"
  by (simp only: top_bit_eq and_exp_eq_0_iff_not_bit)

lemma mux_in_range: "0 \<le> sel \<Longrightarrow> sel < 4 \<Longrightarrow>
  mux sel v0 v1 v2 v3 = Inr (if sel = 0 then v0 else if sel = 1 then v1 else if sel = 2 then v2 else v3)"
  by (auto simp: mux_def)

lemma stage2_eq: "stage2 mult4 areg = Inr ((mult4 mod 16) * areg)"
proof -
  define lo where "lo = mult4 mod 4"
  define hi where "hi = mult4 div 4 mod 4"
  have lo: "0 \<le> lo" "lo < 4" and hi: "0 \<le> hi" "hi < 4" by (simp_all add: lo_def hi_def)
  have "mult4 mod (4 * 4) = 4 * (mult4 div 4 mod 4) + mult4 mod 4"
    by (rule zmod_zmult2_eq) simp
  then have m: "mult4 mod 16 = 4 * hi + lo" by (simp add: lo_def hi_def)
  have sel: "mult4 AND 3 = lo" "drop_bit 2 mult4 AND 3 = hi"
    by (simp_all add: and_3 lo_def hi_def drop_bit_eq_div)
  have "lo = 0 \<or> lo = 1 \<or> lo = 2 \<or> lo = 3" using lo by presburger
  moreover have "hi = 0 \<or> hi = 1 \<or> hi = 2 \<or> hi = 3" using hi by presburger
  ultimately show ?thesis
    unfolding stage2_def Let_def sel m
    by (auto simp: mux_def push_bit_eq_mult algebra_simps)
qed

lemma combinatorial_eq:
  "combinatorial mult4 areg subtract_acc acc shift =
     (if shift < 0 then Inl ValueError
      else Inr (if subtract_acc then ((mult4 mod 16) * areg * 2 ^ nat shift - acc) mod 2 ^ 64
                else ((mult4 mod 16) * areg * 2 ^ nat shift + acc) mod 2 ^ 64))"
  by (simp add: combinatorial_def stage2_eq shl_def and_mask64 push_bit_eq_mult)

section \<open>The multiply loop\<close>

lemma pow_shift4: "0 \<le> k \<Longrightarrow> (2::int) ^ nat (k * 4) = 16 ^ nat k"
proof -
  assume "0 \<le> k"
  then have "nat (k * 4) = 4 * nat k" by (simp add: nat_mult_distrib)
  then show ?thesis by (simp add: power_mult)
qed

lemma digit_split: "(m::int) * X = m mod 16 * X + m div 16 * (16 * X)"
proof -
  have "m mod 16 * X + m div 16 * (16 * X) = (m mod 16 + 16 * (m div 16)) * X"
    by (simp only: algebra_simps)
  also have "m mod 16 + 16 * (m div 16) = m" by simp
  finally show ?thesis by simp
qed

lemma mul_step_eq:
  assumes "0 \<le> stage s"
  shows "mul_step s =
    (Inr (multiplier s div 16 = 0),
     s\<lparr>accumulator :=
          (if stage s = 0
           then (multiplier s mod 16 * multiplicand s - accumulator s) mod 2 ^ 64
           else (multiplier s mod 16 * multiplicand s * 16 ^ nat (stage s) + accumulator s) mod 2 ^ 64),
       stage := stage s + 1,
       multiplier := multiplier s div 16\<rparr>)"
proof -
  have m: "(multiplier s AND 15) mod 16 = multiplier s mod 16"
    by (simp add: and_15)
  show ?thesis
    using assms
    by (simp add: mul_step_def combinatorial_eq m pow_shift4 drop_bit_eq_div Let_def)
qed

lemma mul_step_negative_stage: "stage s < 0 \<Longrightarrow> mul_step s = (Inl ValueError, s)"
  by (simp add: mul_step_def combinatorial_eq)

lemma mul_run_add:
  assumes "1 \<le> stage s" and "0 \<le> multiplier s"
  shows "\<exists>s'. mul_run s = Some (Inr (), s')
              \<and> accumulator s' = (accumulator s + multiplier s * multiplicand s * 16 ^ nat (stage s)) mod 2 ^ 64
              \<and> multiplier s' = 0 \<and> 1 \<le> stage s'"
  using assms
proof (induction "nat (multiplier s)" arbitrary: s rule: less_induct)
  case less
  let ?m = "multiplier s" and ?B = "multiplicand s" and ?k = "nat (stage s)"
  let ?acc1 = "(?m mod 16 * ?B * 16 ^ ?k + accumulator s) mod 2 ^ 64"
  let ?s1 = "s\<lparr>accumulator := ?acc1, stage := stage s + 1, multiplier := ?m div 16\<rparr>"
  have step: "mul_step s = (Inr (?m div 16 = 0), ?s1)"
    using less.prems by (simp add: mul_step_eq)
  show ?case
  proof (cases "?m div 16 = 0")
    case True
    with less.prems have "?m mod 16 = ?m" by simp
    with True step show ?thesis
      using less.prems by (subst mul_run.simps) (simp add: add.commute)
  next
    case False
    with less.prems have pos: "0 < ?m" by (cases "?m = 0") auto
    then have "nat (multiplier ?s1) < nat ?m" by simp
    moreover have "1 \<le> stage ?s1" "0 \<le> multiplier ?s1"
      using less.prems by (simp_all add: pos_imp_zdiv_nonneg_iff)
    ultimately obtain s' where s':
      "mul_run ?s1 = Some (Inr (), s')"
      "accumulator s' = (accumulator ?s1 + multiplier ?s1 * multiplicand ?s1 * 16 ^ nat (stage ?s1)) mod 2 ^ 64"
      "multiplier s' = 0" "1 \<le> stage s'"
      using less.hyps [of ?s1] by blast
    have run: "mul_run s = Some (Inr (), s')"
      using step False s'(1) by (subst mul_run.simps) simp
    have sel: "accumulator ?s1 = ?acc1" "multiplier ?s1 = ?m div 16"
      "multiplicand ?s1 = ?B" "nat (stage ?s1) = Suc ?k"
      using less.prems by simp_all
    have "accumulator s' = (?acc1 + ?m div 16 * ?B * 16 ^ Suc ?k) mod 2 ^ 64"
      using s'(2) unfolding sel .
    also have "\<dots> = ((?m mod 16 * ?B * 16 ^ ?k + accumulator s) + ?m div 16 * ?B * 16 ^ Suc ?k) mod 2 ^ 64"
      by (simp only: mod_add_left_eq)
    also have "(?m mod 16 * ?B * 16 ^ ?k + accumulator s) + ?m div 16 * ?B * 16 ^ Suc ?k
                 = accumulator s + ?m * ?B * 16 ^ ?k"
      using digit_split [of ?m "?B * 16 ^ ?k"] by (simp add: mult.assoc mult.left_commute)
    finally show ?thesis using run s'(3,4) by blast
  qed
qed

lemma mul_run_first:
  assumes "stage s = 0" and "0 \<le> multiplier s"
  shows "\<exists>s'. mul_run s = Some (Inr (), s')
              \<and> accumulator s' = (multiplier s * multiplicand s - accumulator s) mod 2 ^ 64
              \<and> multiplier s' = 0 \<and> 1 \<le> stage s'"
proof -
  let ?m = "multiplier s" and ?B = "multiplicand s"
  let ?acc1 = "(?m mod 16 * ?B - accumulator s) mod 2 ^ 64"
  let ?s1 = "s\<lparr>accumulator := ?acc1, stage := stage s + 1, multiplier := ?m div 16\<rparr>"
  have step: "mul_step s = (Inr (?m div 16 = 0), ?s1)"
    using assms by (simp add: mul_step_eq)
  show ?thesis
  proof (cases "?m div 16 = 0")
    case True
    with assms have "?m mod 16 = ?m" by simp
    with True step show ?thesis
      using assms by (subst mul_run.simps) simp
  next
    case False
    have "1 \<le> stage ?s1" "0 \<le> multiplier ?s1"
      using assms by (simp_all add: pos_imp_zdiv_nonneg_iff)
    then obtain s' where s':
      "mul_run ?s1 = Some (Inr (), s')"
      "accumulator s' = (accumulator ?s1 + multiplier ?s1 * multiplicand ?s1 * 16 ^ nat (stage ?s1)) mod 2 ^ 64"
      "multiplier s' = 0" "1 \<le> stage s'"
      using mul_run_add [of ?s1] by blast
    have run: "mul_run s = Some (Inr (), s')"
      using step False s'(1) by (subst mul_run.simps) simp
    have sel: "accumulator ?s1 = ?acc1" "multiplier ?s1 = ?m div 16"
      "multiplicand ?s1 = ?B" "(16::int) ^ nat (stage ?s1) = 16"
      using assms by simp_all
    have "accumulator s' = (?acc1 + ?m div 16 * ?B * 16) mod 2 ^ 64"
      using s'(2) unfolding sel .
    also have "\<dots> = ((?m mod 16 * ?B - accumulator s) + ?m div 16 * ?B * 16) mod 2 ^ 64"
      by (simp only: mod_add_left_eq)
    also have "(?m mod 16 * ?B - accumulator s) + ?m div 16 * ?B * 16
                 = ?m * ?B - accumulator s"
      using digit_split [of ?m ?B] by (simp add: mult.assoc mult.left_commute mult.commute)
    finally show ?thesis using run s'(3,4) by blast
  qed
qed

lemma mod32_mod31: "(x::int) mod 2 ^ 32 mod 2 ^ 31 = x mod 2 ^ 31"
  by (rule mod_mod_cancel) (simp add: le_imp_power_dvd)

lemma masked_bias: "push_bit 32 (b AND mask32) AND push_bit 32 mask31 = b mod 2 ^ 31 * 2 ^ 32"
proof -
  have "push_bit 32 (b AND mask32) AND push_bit 32 mask31 = push_bit 32 ((b AND mask32) AND mask31)"
    by (simp only: push_bit_and)
  also have "\<dots> = push_bit 32 (b mod 2 ^ 31)"
    by (simp only: and_mask32 and_mask31 mod32_mod31)
  finally show ?thesis by (simp only: push_bit_eq_mult)
qed

lemma masked_add: "(a AND mask32) AND mask31 = a mod 2 ^ 31"
  by (simp only: and_mask32 and_mask31 mod32_mod31)

lemma mul_init_eq:
  "mul_init a b sa sb s =
     (Inr (),
      s\<lparr>multiplier := a mod 2 ^ 32, multiplicand := b mod 2 ^ 32, stage := 0,
        accumulator := (add_in_of a b sa sb * 2 ^ 32 + acc_in_of a b sa sb) mod 2 ^ 64\<rparr>)"
proof -
  have acc: "(if sa \<and> a AND sign_bit \<noteq> 0
                    then (if sb then push_bit 32 (b AND mask32) AND push_bit 32 mask31
                          else push_bit 32 (b AND mask32))
                    else 0) = acc_in_of a b sa sb"
    unfolding masked_bias
    by (simp add: acc_in_of_def sign_bit_test and_mask32 push_bit_eq_mult)
  have add: "(if sb \<and> b AND sign_bit \<noteq> 0
                    then (if sa then (a AND mask32) AND mask31 else a AND mask32)
                    else 0) = add_in_of a b sa sb"
    unfolding masked_add
    by (simp add: add_in_of_def sign_bit_test and_mask32)
  show ?thesis
    unfolding mul_init_def Let_def acc add
    by (simp add: combinatorial_eq and_mask64 and_mask32)
qed

lemma mul_product_eq:
  "mul_product a b sa sb x =
     Some (Inr ((a mod 2 ^ 32 * (b mod 2 ^ 32) - (add_in_of a b sa sb * 2 ^ 32 + acc_in_of a b sa sb)) mod 2 ^ 64))"
proof -
  let ?bias = "add_in_of a b sa sb * 2 ^ 32 + acc_in_of a b sa sb"
  let ?x1 = "x\<lparr>multiplier := a mod 2 ^ 32, multiplicand := b mod 2 ^ 32, stage := 0,
        accumulator := ?bias mod 2 ^ 64\<rparr>"
  have sel: "stage ?x1 = 0" "multiplier ?x1 = a mod 2 ^ 32" "multiplicand ?x1 = b mod 2 ^ 32"
    "accumulator ?x1 = ?bias mod 2 ^ 64"
    by simp_all
  have "0 \<le> multiplier ?x1" unfolding sel by simp
  with sel(1) obtain x' where x': "mul_run ?x1 = Some (Inr (), x')"
    "accumulator x' = (multiplier ?x1 * multiplicand ?x1 - accumulator ?x1) mod 2 ^ 64"
    using mul_run_first [of ?x1] by blast
  have "accumulator x' = (a mod 2 ^ 32 * (b mod 2 ^ 32) - ?bias mod 2 ^ 64) mod 2 ^ 64"
    using x'(2) unfolding sel .
  also have "\<dots> = (a mod 2 ^ 32 * (b mod 2 ^ 32) - ?bias) mod 2 ^ 64"
    by (simp only: mod_diff_right_eq)
  finally show ?thesis
    using x'(1) by (simp add: mul_product_def mul_init_eq)
qed

text \<open>
  Claim C1. For all \<open>a\<close> and \<open>b\<close>, \<^verbatim>\<open>mul_init(a, b, False, False)\<close> followed by
  \<^verbatim>\<open>mul_step\<close> until it returns true returns without an exception and leaves the
  accumulator equal to \<open>(a mod 2^32) * (b mod 2^32)\<close> reduced modulo \<open>2^64\<close>.
\<close>

theorem mul_unsigned_product:
  "mul_product a b False False x = Some (Inr ((a mod 2 ^ 32) * (b mod 2 ^ 32) mod 2 ^ 64))"
  by (simp add: mul_product_eq add_in_of_def acc_in_of_def)

lemma mod32_split: "(x::int) mod 2 ^ 32 = x mod 2 ^ 31 + 2 ^ 31 * of_bool (bit x 31)"
  using take_bit_Suc_from_most [of 31 x] by (simp add: take_bit_eq_mod)

lemma signed32: "signed_take_bit 31 (x::int) = x mod 2 ^ 32 - 2 ^ 32 * of_bool (bit x 31)"
  using signed_take_bit_eq_take_bit_minus [of 31 x] by (simp add: take_bit_eq_mod)

lemma bias_signed_signed:
  "a mod 2 ^ 32 * (b mod 2 ^ 32) - (add_in_of a b True True * 2 ^ 32 + acc_in_of a b True True)
     = signed_take_bit 31 a * signed_take_bit 31 b"
proof -
  define A B where "A = a mod 2 ^ 31" and "B = b mod 2 ^ 31"
  show ?thesis
    unfolding signed32 add_in_of_def acc_in_of_def mod32_split [of a] mod32_split [of b]
      A_def [symmetric] B_def [symmetric]
    by (cases "bit a 31"; cases "bit b 31") (simp_all add: algebra_simps)
qed

lemma bias_signed_unsigned:
  "a mod 2 ^ 32 * (b mod 2 ^ 32) - (add_in_of a b True False * 2 ^ 32 + acc_in_of a b True False)
     = signed_take_bit 31 a * (b mod 2 ^ 32)"
  unfolding signed32 add_in_of_def acc_in_of_def
  by (cases "bit a 31") (simp_all add: algebra_simps)

lemma bias_unsigned_signed:
  "a mod 2 ^ 32 * (b mod 2 ^ 32) - (add_in_of a b False True * 2 ^ 32 + acc_in_of a b False True)
     = (a mod 2 ^ 32) * signed_take_bit 31 b"
  unfolding signed32 add_in_of_def acc_in_of_def
  by (cases "bit b 31") (simp_all add: algebra_simps)

text \<open>
  Claim C3. With both sign flags set the completed multiply leaves the 64-bit two's
  complement encoding of the product of \<open>a\<close> and \<open>b\<close> read as signed 32-bit values
  (\<^term>\<open>signed_take_bit 31 a\<close> is that reading); with exactly one flag set it leaves, modulo
  \<open>2^64\<close>, the product of the flagged operand read as signed and the other read as
  unsigned.
\<close>

theorem mul_signed_product:
  "mul_product a b True True x = Some (Inr ((signed_take_bit 31 a * signed_take_bit 31 b) mod 2 ^ 64))
   \<and> mul_product a b True False x = Some (Inr ((signed_take_bit 31 a * (b mod 2 ^ 32)) mod 2 ^ 64))
   \<and> mul_product a b False True x = Some (Inr (((a mod 2 ^ 32) * signed_take_bit 31 b) mod 2 ^ 64))"
  by (simp only: mul_product_eq bias_signed_signed bias_signed_unsigned bias_unsigned_signed simp_thms)

section \<open>The combinational stage\<close>

text \<open>
  Claim C4, as the code has it. For every selector, operand, accumulator and flag the two
  muxed partial products sum to \<open>(mult4 & 15) * areg\<close>. For a shift amount that is not
  negative the returned value is that sum shifted left by the shift amount, then added
  to the accumulator when \<^verbatim>\<open>subtract_acc\<close> is false, and with the accumulator subtracted
  from it (shifted sum minus accumulator) when \<^verbatim>\<open>subtract_acc\<close> is true, masked to 64
  bits. A negative shift amount raises \<open>ValueError\<close>.
\<close>

theorem combinatorial_value:
  "stage2 mult4 areg = Inr ((mult4 AND 15) * areg)
   \<and> combinatorial mult4 areg subtract_acc acc shift =
       (if shift < 0 then Inl ValueError
        else if subtract_acc
             then Inr ((push_bit (nat shift) ((mult4 AND 15) * areg) - acc) AND mask64)
             else Inr ((push_bit (nat shift) ((mult4 AND 15) * areg) + acc) AND mask64))"
proof -
  have m: "(mult4 AND 15) = mult4 mod 16" by (simp add: and_15)
  show ?thesis
    unfolding m by (simp add: stage2_eq combinatorial_eq and_mask64 push_bit_eq_mult)
qed

text \<open>
  Claim C4 as stated fails. With selector 1, operand 1, accumulator 0, shift 0 and the
  subtract flag set the stage returns \<open>1 - 0 = 1\<close>, not accumulator minus shifted sum
  (\<open>0 - 1\<close> masked to 64 bits); and with shift \<open>-1\<close> it returns nothing but raises.
\<close>

theorem combinatorial_subtract_counterexample:
  "combinatorial 1 1 True 0 0 = Inr 1
   \<and> combinatorial 1 1 True 0 0 \<noteq> Inr ((0 - push_bit 0 ((1 AND 15) * 1)) AND mask64)
   \<and> combinatorial 1 1 False 0 (- 1) = Inl ValueError"
  by (simp add: combinatorial_eq and_mask64 and_15)

section \<open>How many steps a multiply takes\<close>

lemma div16_pow: "(m::int) div 16 div 16 ^ j = m div 16 ^ Suc j"
proof -
  have "m div (16 * 16 ^ j) = m div 16 div 16 ^ j" by (rule zdiv_zmult2_eq) simp
  then show ?thesis by (simp only: power_Suc)
qed

lemma div_zero_iff_less: "0 \<le> (m::int) \<Longrightarrow> 0 < c \<Longrightarrow> m div c = 0 \<longleftrightarrow> m < c"
  using pos_imp_zdiv_pos_iff [of c m] pos_imp_zdiv_nonneg_iff [of c m] by auto

lemma calls_mul_step:
  assumes "0 \<le> stage s" and "0 \<le> multiplier s"
  shows "fst (calls mul_step n s) = map (\<lambda>k. Inr (multiplier s div 16 ^ Suc k = 0)) [0..<n]"
  using assms
proof (induction n arbitrary: s)
  case 0
  show ?case by simp
next
  case (Suc n)
  let ?s1 = "snd (mul_step s)"
  have step: "mul_step s = (Inr (multiplier s div 16 = 0), ?s1)"
    and sel: "stage ?s1 = stage s + 1" "multiplier ?s1 = multiplier s div 16"
    using Suc.prems by (simp_all add: mul_step_eq)
  have "0 \<le> stage ?s1" "0 \<le> multiplier ?s1"
    unfolding sel using Suc.prems by (simp_all add: pos_imp_zdiv_nonneg_iff)
  then have IH: "fst (calls mul_step n ?s1) = map (\<lambda>k. Inr (multiplier ?s1 div 16 ^ Suc k = 0)) [0..<n]"
    by (rule Suc.IH)
  have d: "multiplier s div 16 div 16 ^ Suc k = multiplier s div 16 ^ Suc (Suc k)" for k
    by (rule div16_pow)
  have "fst (calls mul_step (Suc n) s) = Inr (multiplier s div 16 = 0) # fst (calls mul_step n ?s1)"
    by (subst calls.simps, subst step) (simp add: split_beta)
  also have "\<dots> = Inr (multiplier s div 16 ^ Suc 0 = 0) # map (\<lambda>k. Inr (multiplier s div 16 ^ Suc (Suc k) = 0)) [0..<n]"
    unfolding IH sel d by simp
  also have "\<dots> = map (\<lambda>k. Inr (multiplier s div 16 ^ Suc k = 0)) [0..<Suc n]"
    by (simp only: map_upt_Suc)
  finally show ?case .
qed

text \<open>
  Claim C7, as the code has it. After \<^verbatim>\<open>mul_init(a, b, sa, sb)\<close>, for any flags and any
  object, eight calls of \<^verbatim>\<open>mul_step\<close> raise nothing; call number \<open>k\<close> (from 1) returns
  true exactly when \<open>a mod 2^32 < 16^k\<close>, and the eighth call returns true. So the
  multiply completes in at most eight steps, at the first \<open>k \<ge> 1\<close> with
  \<open>a mod 2^32 < 16^k\<close>.
\<close>

theorem mul_step_returns:
  "fst (calls mul_step 8 (snd (mul_init a b sa sb x)))
     = map (\<lambda>k. Inr (a mod 2 ^ 32 < 16 ^ Suc k)) [0..<7] @ [Inr True]"
proof -
  let ?x1 = "snd (mul_init a b sa sb x)"
  let ?A = "a mod 2 ^ 32"
  have sel: "stage ?x1 = 0" "multiplier ?x1 = ?A"
    by (simp_all add: mul_init_eq)
  have "0 \<le> stage ?x1" "0 \<le> multiplier ?x1"
    unfolding sel by simp_all
  then have "fst (calls mul_step 8 ?x1) = map (\<lambda>k. Inr (multiplier ?x1 div 16 ^ Suc k = 0)) [0..<8]"
    by (rule calls_mul_step)
  also have "\<dots> = map (\<lambda>k. Inr (?A < 16 ^ Suc k)) [0..<8]"
    unfolding sel by (simp only: div_zero_iff_less pos_mod_sign zero_less_numeral zero_less_power)
  also have "\<dots> = map (\<lambda>k. Inr (?A < 16 ^ Suc k)) [0..<7] @ [Inr (?A < 16 ^ Suc 7)]"
    by (simp add: upt_rec)
  also have "?A < 16 ^ Suc 7 \<longleftrightarrow> True"
    by simp
  finally show ?thesis .
qed

text \<open>
  Claim C7 as stated fails: after \<^verbatim>\<open>mul_init(4, 5)\<close> the first call of \<^verbatim>\<open>mul_step\<close>
  already returns true, so the returns of eight calls are not seven times false and
  then true.
\<close>

theorem mul_step_eight_counterexample:
  "fst (calls mul_step 8 (snd (mul_init 4 5 False False new_multdiv)))
     \<noteq> [Inr False, Inr False, Inr False, Inr False, Inr False, Inr False, Inr False, Inr True]"
proof -
  let ?x1 = "snd (mul_init 4 5 False False new_multdiv)"
  have "0 \<le> stage ?x1" "0 \<le> multiplier ?x1" "multiplier ?x1 div 16 = 0"
    by (simp_all add: mul_init_eq)
  then show ?thesis
    by (simp add: calls_mul_step upt_rec)
qed

section \<open>Termination of \<^verbatim>\<open>div_init\<close>\<close>

lemma norm_divisor_step:
  "norm_divisor d st = (if bit d 31 then Some (d, st) else norm_divisor (d * 2) (st + 1))"
  by (subst norm_divisor.simps, unfold sign_bit_test) (simp add: push_bit_eq_mult)

lemma norm_accumulator_step:
  "norm_accumulator acc st = (if bit acc 63 then Some (acc, st) else norm_accumulator (acc * 2) (st - 1))"
  by (subst norm_accumulator.simps, unfold top_bit_test) (simp add: push_bit_eq_mult)

lemma norm_divisor_Some_nonzero:
  assumes "norm_divisor d st = Some r"
  shows "d \<noteq> 0"
proof (rule norm_divisor.raw_induct [where P = "\<lambda>d st r. d \<noteq> 0", OF _ assms])
  fix f d st r
  assume IH: "\<And>d st y. f d st = Some y \<Longrightarrow> d \<noteq> 0"
    and eq: "(if d AND sign_bit = 0 then f (push_bit 1 d) (st + 1) else Some (d, st)) = Some r"
  show "d \<noteq> 0"
  proof
    assume "d = 0"
    with eq have "f 0 (st + 1) = Some r" by simp
    from IH [OF this] show False by simp
  qed
qed

lemma norm_divisor_zero: "norm_divisor 0 st = None"
  using norm_divisor_Some_nonzero [of 0 st] by (cases "norm_divisor 0 st") auto

lemma norm_accumulator_Some_nonzero:
  assumes "norm_accumulator acc st = Some r"
  shows "acc \<noteq> 0"
proof (rule norm_accumulator.raw_induct [where P = "\<lambda>acc st r. acc \<noteq> 0", OF _ assms])
  fix f acc st r
  assume IH: "\<And>acc st y. f acc st = Some y \<Longrightarrow> acc \<noteq> 0"
    and eq: "(if acc AND push_bit 32 sign_bit = 0 then f (push_bit 1 acc) (st - 1) else Some (acc, st)) = Some r"
  show "acc \<noteq> 0"
  proof
    assume "acc = 0"
    with eq have "f 0 (st - 1) = Some r" by simp
    from IH [OF this] show False by simp
  qed
qed

lemma norm_accumulator_zero: "norm_accumulator 0 st = None"
  using norm_accumulator_Some_nonzero [of 0 st] by (cases "norm_accumulator 0 st") auto

lemma bit_top: "0 \<le> (x::int) \<Longrightarrow> x < 2 ^ Suc n \<Longrightarrow> bit x n \<longleftrightarrow> 2 ^ n \<le> x"
proof -
  assume x: "0 \<le> x" "x < 2 ^ Suc n"
  define t where "t = take_bit n x"
  have t: "0 \<le> t" "t < 2 ^ n" by (simp_all add: t_def)
  have "take_bit (Suc n) x = x" using x by (simp add: take_bit_int_eq_self)
  then have "x = 2 ^ n * of_bool (bit x n) + t"
    using take_bit_Suc_from_most [of n x] by (simp add: t_def)
  with t show ?thesis by (cases "bit x n") auto
qed

lemma norm_divisor_terminates:
  assumes "0 < d" and "d < 2 ^ 32"
  shows "\<exists>d' st'. norm_divisor d st = Some (d', st') \<and> 2 ^ 31 \<le> d' \<and> d' < 2 ^ 32 \<and> st \<le> st'"
  using assms
proof (induction "nat (2 ^ 32 - d)" arbitrary: d st rule: less_induct)
  case less
  have b: "bit d 31 \<longleftrightarrow> 2 ^ 31 \<le> d"
    using less.prems bit_top [of d 31] by simp
  show ?case
  proof (cases "2 ^ 31 \<le> d")
    case True
    then show ?thesis
      using less.prems b by (subst norm_divisor_step) simp
  next
    case False
    then have "nat (2 ^ 32 - d * 2) < nat (2 ^ 32 - d)" "0 < d * 2" "d * 2 < 2 ^ 32"
      using less.prems by simp_all
    then obtain d' st' where
      "norm_divisor (d * 2) (st + 1) = Some (d', st')" "2 ^ 31 \<le> d'" "d' < 2 ^ 32" "st + 1 \<le> st'"
      using less.hyps [of "d * 2" "st + 1"] by blast
    then show ?thesis
      using False b by (subst norm_divisor_step) simp
  qed
qed

lemma norm_accumulator_terminates:
  assumes "0 < acc" and "acc < 2 ^ 64"
  shows "\<exists>acc' st'. norm_accumulator acc st = Some (acc', st') \<and> 2 ^ 63 \<le> acc' \<and> acc' < 2 ^ 64 \<and> st' \<le> st"
  using assms
proof (induction "nat (2 ^ 64 - acc)" arbitrary: acc st rule: less_induct)
  case less
  have b: "bit acc 63 \<longleftrightarrow> 2 ^ 63 \<le> acc"
    using less.prems bit_top [of acc 63] by simp
  show ?case
  proof (cases "2 ^ 63 \<le> acc")
    case True
    then show ?thesis
      using less.prems b by (subst norm_accumulator_step) simp
  next
    case False
    then have "nat (2 ^ 64 - acc * 2) < nat (2 ^ 64 - acc)" "0 < acc * 2" "acc * 2 < 2 ^ 64"
      using less.prems by simp_all
    then obtain acc' st' where
      "norm_accumulator (acc * 2) (st - 1) = Some (acc', st')" "2 ^ 63 \<le> acc'" "acc' < 2 ^ 64" "st' \<le> st - 1"
      using less.hyps [of "acc * 2" "st - 1"] by blast
    then show ?thesis
      using False b by (subst norm_accumulator_step) simp
  qed
qed

text \<open>
  \<^verbatim>\<open>div_init\<close> returns exactly when the low 32 bits of both operands are nonzero: a zero
  divisor keeps the first loop running, a zero dividend the second.
\<close>

lemma div_init_returns_iff:
  "div_init a b signed_flag x \<noteq> None \<longleftrightarrow> a mod 2 ^ 32 \<noteq> 0 \<and> b mod 2 ^ 32 \<noteq> 0"
proof (cases "b mod 2 ^ 32 = 0")
  case True
  then show ?thesis by (simp add: div_init_def and_mask32 norm_divisor_zero)
next
  case False
  then have "0 < b mod 2 ^ 32" "b mod 2 ^ 32 < 2 ^ 32"
    using pos_mod_sign [of "2 ^ 32" b] by simp_all
  then obtain d st where d: "norm_divisor (b mod 2 ^ 32) 0 = Some (d, st)"
    using norm_divisor_terminates [of "b mod 2 ^ 32" 0] by blast
  show ?thesis
  proof (cases "a mod 2 ^ 32 = 0")
    case True
    then show ?thesis
      using d by (simp add: div_init_def and_mask32 norm_accumulator_zero)
  next
    case False
    then have "0 < a mod 2 ^ 32" "a mod 2 ^ 32 < 2 ^ 32"
      using pos_mod_sign [of "2 ^ 32" a] by simp_all
    then have "0 < a mod 2 ^ 32 * 2 ^ 32" "a mod 2 ^ 32 * 2 ^ 32 < 2 ^ 64"
      by simp_all
    then obtain acc st' where "norm_accumulator (a mod 2 ^ 32 * 2 ^ 32) st = Some (acc, st')"
      using norm_accumulator_terminates [of "a mod 2 ^ 32 * 2 ^ 32" st] by blast
    then show ?thesis
      using d False \<open>b mod 2 ^ 32 \<noteq> 0\<close> by (simp add: div_init_def and_mask32 push_bit_eq_mult)
  qed
qed

lemma div_init_zero_divisor: "b mod 2 ^ 32 = 0 \<Longrightarrow> div_init a b signed_flag x = None"
  using div_init_returns_iff [of a b signed_flag x] by simp

text \<open>
  Claim C8 at the input \<^verbatim>\<open>div_init(0, 1)\<close>: the divisor 1 is nonzero, and the call does
  not return, because the loop that normalizes the accumulator shifts zero for ever.
\<close>

theorem div_init_zero_dividend: "div_init 0 1 signed_flag x = None"
  using div_init_returns_iff [of 0 1 signed_flag x] by simp

section \<open>The divide step\<close>

text \<open>
  \<^verbatim>\<open>div_step\<close> in arithmetic: the masked trial subtraction is never below zero, so the test
  \<^verbatim>\<open>next_acc>=0\<close> always holds and the store depends on the stage counter alone.
\<close>

lemma div_step_eq:
  assumes "divisor s = Some d"
  shows "div_step s =
    (Inr (stage s - 1 < 0),
     if 0 \<le> stage s
     then s\<lparr>accumulator := - ((d * 2 ^ 32 - accumulator s) mod 2 ^ 64) + 2 ^ nat (stage s),
            divisor := Some (d div 2), stage := stage s - 1\<rparr>
     else s\<lparr>divisor := Some (d div 2), stage := stage s - 1\<rparr>)"
  using assms
  by (simp add: div_step_def combinatorial_eq shl_def push_bit_eq_mult drop_bit_eq_div)

text \<open>
  Claim C2 at the source's own test vector \<^verbatim>\<open>test_div(4,5)\<close>: the completed divide yields
  quotient register 1 and remainder register \<^verbatim>\<open>0xE0000000\<close>, where unsigned division
  gives quotient 0 and remainder 4.
\<close>

theorem divide_4_5: "divide 4 5 False = Some (Inr (1, 0xE0000000))
   \<and> divide 4 5 False \<noteq> Some (Inr (4 mod 2 ^ 32 div (5 mod 2 ^ 32), 4 mod 2 ^ 32 mod (5 mod 2 ^ 32)))"
  by code_simp

subsection \<open>Register widths\<close>

text \<open>
  Every method keeps multiplier, multiplicand and divisor within 32 bits, and
  \<^verbatim>\<open>mul_init\<close>, \<^verbatim>\<open>mul_step\<close> and \<^verbatim>\<open>div_init\<close> store an accumulator within 64 bits. The
  store in \<^verbatim>\<open>div_step\<close> is the exception.
\<close>

lemma div_init_Some:
  assumes "a mod 2 ^ 32 \<noteq> 0" and "b mod 2 ^ 32 \<noteq> 0"
  shows "\<exists>d st acc. div_init a b signed_flag x
                        = Some (x\<lparr>accumulator := acc, stage := st, divisor := Some d\<rparr>)
           \<and> 2 ^ 31 \<le> d \<and> d < 2 ^ 32 \<and> 2 ^ 63 \<le> acc \<and> acc < 2 ^ 64"
proof -
  have "0 < b mod 2 ^ 32" "b mod 2 ^ 32 < 2 ^ 32"
    using assms(2) pos_mod_sign [of "2 ^ 32" b] by simp_all
  then obtain d st where d: "norm_divisor (b mod 2 ^ 32) 0 = Some (d, st)"
    "2 ^ 31 \<le> d" "d < 2 ^ 32"
    using norm_divisor_terminates [of "b mod 2 ^ 32" 0] by blast
  have "0 < a mod 2 ^ 32" "a mod 2 ^ 32 < 2 ^ 32"
    using assms(1) pos_mod_sign [of "2 ^ 32" a] by simp_all
  then have "0 < a mod 2 ^ 32 * 2 ^ 32" "a mod 2 ^ 32 * 2 ^ 32 < 2 ^ 64"
    by simp_all
  then obtain acc st' where acc: "norm_accumulator (a mod 2 ^ 32 * 2 ^ 32) st = Some (acc, st')"
    "2 ^ 63 \<le> acc" "acc < 2 ^ 64"
    using norm_accumulator_terminates [of "a mod 2 ^ 32 * 2 ^ 32" st] by blast
  have "div_init a b signed_flag x = Some (x\<lparr>accumulator := acc, stage := st', divisor := Some d\<rparr>)"
    using d(1) acc(1) by (simp add: div_init_def and_mask32 push_bit_eq_mult)
  with d(2,3) acc(2,3) show ?thesis by blast
qed

lemma mul_init_narrow: "narrow_regs_ok x \<Longrightarrow> narrow_regs_ok (snd (mul_init a b sa sb x))"
  by (simp add: mul_init_eq narrow_regs_ok_def)

lemma mul_step_narrow: "narrow_regs_ok s \<Longrightarrow> narrow_regs_ok (snd (mul_step s))"
proof (cases "0 \<le> stage s")
  case True
  assume "narrow_regs_ok s"
  moreover from this have "multiplier s div 16 \<le> multiplier s"
    by (simp add: narrow_regs_ok_def zdiv_mono2 [of "multiplier s" 1 16, simplified])
  ultimately show ?thesis
    using True by (simp add: mul_step_eq narrow_regs_ok_def pos_imp_zdiv_nonneg_iff)
next
  case False
  assume "narrow_regs_ok s"
  then show ?thesis using False by (simp add: mul_step_negative_stage)
qed

lemma div_step_narrow: "narrow_regs_ok s \<Longrightarrow> narrow_regs_ok (snd (div_step s))"
proof (cases "divisor s")
  case None
  assume "narrow_regs_ok s"
  then show ?thesis using None by (simp add: div_step_def)
next
  case (Some d)
  assume ok: "narrow_regs_ok s"
  then have "0 \<le> d" "d < 2 ^ 32" using Some by (simp_all add: narrow_regs_ok_def)
  then have "0 \<le> d div 2" "d div 2 < 2 ^ 32" by simp_all
  then show ?thesis
    using ok Some by (simp add: div_step_eq narrow_regs_ok_def)
qed

lemma div_init_narrow:
  assumes "div_init a b signed_flag x = Some s" and "narrow_regs_ok x"
  shows "narrow_regs_ok s \<and> 0 \<le> accumulator s \<and> accumulator s < 2 ^ 64"
proof -
  have "a mod 2 ^ 32 \<noteq> 0" "b mod 2 ^ 32 \<noteq> 0"
    using assms(1) div_init_returns_iff [of a b signed_flag x] by simp_all
  then obtain d st acc where
    "div_init a b signed_flag x = Some (x\<lparr>accumulator := acc, stage := st, divisor := Some d\<rparr>)"
    "2 ^ 31 \<le> d" "d < 2 ^ 32" "2 ^ 63 \<le> acc" "acc < 2 ^ 64"
    using div_init_Some [of a b signed_flag x] by blast
  then show ?thesis
    using assms by (auto simp: narrow_regs_ok_def)
qed

lemma mul_accumulator_masked:
  "0 \<le> accumulator (snd (mul_init a b sa sb x)) \<and> accumulator (snd (mul_init a b sa sb x)) < 2 ^ 64"
  "0 \<le> stage s \<Longrightarrow> 0 \<le> accumulator (snd (mul_step s)) \<and> accumulator (snd (mul_step s)) < 2 ^ 64"
  by (simp_all add: mul_init_eq mul_step_eq)

text \<open>
  Claim C6 at \<^verbatim>\<open>div_init(4, 5)\<close> followed by one \<^verbatim>\<open>div_step\<close>: the value stored into the
  accumulator is \<open>- next_acc + (1 << stage)\<close>, not masked, and here it is negative.
\<close>

theorem div_step_stores_negative:
  "div_init 4 5 False new_multdiv
     = Some \<lparr>accumulator = 0x8000000000000000, multiplier = 0, multiplicand = 0, stage = 0,
             divisor = Some 0xA0000000\<rparr>
   \<and> div_step \<lparr>accumulator = 0x8000000000000000, multiplier = 0, multiplicand = 0, stage = 0,
               divisor = Some 0xA0000000\<rparr>
     = (Inr True, \<lparr>accumulator = - 0x1FFFFFFFFFFFFFFF, multiplier = 0, multiplicand = 0,
                   stage = - 1, divisor = Some 0x50000000\<rparr>)"
  by code_simp

text \<open>
  A dividend far below the divisor leaves a negative stage counter behind \<^verbatim>\<open>div_init\<close>.
\<close>

lemma div_init_skewed:
  "div_init 1 0x80000000 False new_multdiv
     = Some \<lparr>accumulator = 0x8000000000000000, multiplier = 0, multiplicand = 0,
              stage = - 31, divisor = Some 0x80000000\<rparr>"
  by code_simp




text \<open>
  Claim C9. The divide computation does not depend on the \<^verbatim>\<open>signed\<close> parameter: with
  the flag true or false \<^verbatim>\<open>div_init\<close> gives the same object (or fails to return alike),
  any number of following \<^verbatim>\<open>div_step\<close> calls give the same returns and objects, the
  quotient and remainder reads agree, and so does the whole divide sequence.
\<close>

theorem div_ignores_signed_flag:
  "div_init a b True x = div_init a b False x
   \<and> map_option (calls div_step n) (div_init a b True x)
       = map_option (calls div_step n) (div_init a b False x)
   \<and> div_result a b True y = div_result a b False y
   \<and> div_remainder a b True y = div_remainder a b False y
   \<and> divide a b True = divide a b False"
proof -
  have i: "div_init a b True = div_init a b False"
    by (simp add: fun_eq_iff div_init_def)
  have r: "div_result a b True = div_result a b False"
    by (simp add: fun_eq_iff div_result_def)
  have m: "div_remainder a b True = div_remainder a b False"
    by (simp add: fun_eq_iff div_remainder_def)
  show ?thesis
    unfolding divide_def by (simp only: i r m simp_thms)
qed

section \<open>Stepping a finished multiply\<close>

lemma mul_step_idle:
  assumes "multiplier s = 0" and "1 \<le> stage s"
  shows "mul_step s
           = (Inr True, s\<lparr>accumulator := accumulator s mod 2 ^ 64, stage := stage s + 1\<rparr>)"
proof -
  have "s\<lparr>accumulator := accumulator s mod 2 ^ 64, stage := stage s + 1, multiplier := 0\<rparr>
          = s\<lparr>accumulator := accumulator s mod 2 ^ 64, stage := stage s + 1\<rparr>"
    using assms(1) by simp
  then show ?thesis
    using assms by (simp add: mul_step_eq)
qed

lemma calls_mul_step_idle:
  assumes "multiplier s = 0" and "1 \<le> stage s"
  shows "calls mul_step n s
           = (replicate n (Inr True),
              if n = 0 then s
              else s\<lparr>accumulator := accumulator s mod 2 ^ 64, stage := stage s + int n\<rparr>)"
  using assms
proof (induction n arbitrary: s)
  case 0
  show ?case by simp
next
  case (Suc n)
  let ?s1 = "s\<lparr>accumulator := accumulator s mod 2 ^ 64, stage := stage s + 1\<rparr>"
  have step: "mul_step s = (Inr True, ?s1)"
    using Suc.prems by (rule mul_step_idle)
  have "multiplier ?s1 = 0" "1 \<le> stage ?s1"
    using Suc.prems by simp_all
  then have "calls mul_step n ?s1
               = (replicate n (Inr True),
                  if n = 0 then ?s1
                  else ?s1\<lparr>accumulator := accumulator ?s1 mod 2 ^ 64,
                           stage := stage ?s1 + int n\<rparr>)"
    by (rule Suc.IH)
  then show ?case
    using step by (simp add: add.assoc add.commute)
qed

text \<open>
  Claim C10. The accumulator is a 64-bit register and \<^verbatim>\<open>mul_step\<close> stores it masked. In
  every state whose multiplier is zero and whose stage counter is at least 1 the
  selected partial product is zero and is added, not subtracted: \<^verbatim>\<open>mul_step\<close> returns
  true and stores the accumulator's own 64 bits back, so the register content is
  unchanged, after one call and after any number \<open>n\<close> of calls. Consequently, after
  \<^verbatim>\<open>mul_init\<close> and the loop up to the first true, \<open>n\<close> further calls return true and
  leave the product exactly as it is.
\<close>

theorem mul_step_idle_keeps_product:
  "(multiplier s = 0 \<and> 1 \<le> stage s
      \<longrightarrow> stage2 (multiplier s AND 15) (multiplicand s) = Inr 0
        \<and> mul_step s
            = (Inr True, s\<lparr>accumulator := accumulator s mod 2 ^ 64, stage := stage s + 1\<rparr>)
        \<and> fst (calls mul_step n s) = replicate n (Inr True)
        \<and> accumulator (snd (calls mul_step n s)) mod 2 ^ 64 = accumulator s mod 2 ^ 64)
   \<and> (\<exists>s'. mul_run (snd (mul_init a b sa sb x)) = Some (Inr (), s')
            \<and> fst (calls mul_step n s') = replicate n (Inr True)
            \<and> accumulator (snd (calls mul_step n s')) = accumulator s')"
proof -
  let ?x1 = "snd (mul_init a b sa sb x)"
  have "stage ?x1 = 0" "0 \<le> multiplier ?x1"
    by (simp_all add: mul_init_eq)
  then obtain s' where s': "mul_run ?x1 = Some (Inr (), s')"
    "accumulator s' = (multiplier ?x1 * multiplicand ?x1 - accumulator ?x1) mod 2 ^ 64"
    "multiplier s' = 0" "1 \<le> stage s'"
    using mul_run_first [of ?x1] by blast
  have fixed: "accumulator s' mod 2 ^ 64 = accumulator s'"
    unfolding s'(2) by simp
  have "calls mul_step n s'
          = (replicate n (Inr True),
             if n = 0 then s'
             else s'\<lparr>accumulator := accumulator s' mod 2 ^ 64, stage := stage s' + int n\<rparr>)"
    using s'(3,4) by (rule calls_mul_step_idle)
  then have "fst (calls mul_step n s') = replicate n (Inr True)
             \<and> accumulator (snd (calls mul_step n s')) = accumulator s'"
    using fixed by simp
  with s'(1) have second: "\<exists>s'. mul_run ?x1 = Some (Inr (), s')
            \<and> fst (calls mul_step n s') = replicate n (Inr True)
            \<and> accumulator (snd (calls mul_step n s')) = accumulator s'"
    by blast
  have first: "stage2 (multiplier s AND 15) (multiplicand s) = Inr 0
        \<and> mul_step s
            = (Inr True, s\<lparr>accumulator := accumulator s mod 2 ^ 64, stage := stage s + 1\<rparr>)
        \<and> fst (calls mul_step n s) = replicate n (Inr True)
        \<and> accumulator (snd (calls mul_step n s)) mod 2 ^ 64 = accumulator s mod 2 ^ 64"
    if "multiplier s = 0" "1 \<le> stage s"
  proof -
    have "stage2 (multiplier s AND 15) (multiplicand s) = Inr 0"
      using that(1) by (simp add: stage2_eq)
    moreover have "mul_step s
            = (Inr True, s\<lparr>accumulator := accumulator s mod 2 ^ 64, stage := stage s + 1\<rparr>)"
      using that by (rule mul_step_idle)
    moreover have "calls mul_step n s
           = (replicate n (Inr True),
              if n = 0 then s
              else s\<lparr>accumulator := accumulator s mod 2 ^ 64, stage := stage s + int n\<rparr>)"
      using that by (rule calls_mul_step_idle)
    then have "fst (calls mul_step n s) = replicate n (Inr True)
        \<and> accumulator (snd (calls mul_step n s)) mod 2 ^ 64 = accumulator s mod 2 ^ 64"
      by simp
    ultimately show ?thesis by blast
  qed
  show ?thesis
    using first second by blast
qed

theorem mul_step_idle_keeps_product_witness:
  "multiplier \<lparr>accumulator = 20, multiplier = 0, multiplicand = 5, stage = 1, divisor = None\<rparr> = 0
   \<and> 1 \<le> stage \<lparr>accumulator = 20, multiplier = 0, multiplicand = 5, stage = 1, divisor = None\<rparr>
   \<and> mul_step \<lparr>accumulator = 20, multiplier = 0, multiplicand = 5, stage = 1, divisor = None\<rparr>
       = (Inr True, \<lparr>accumulator = 20, multiplier = 0, multiplicand = 5, stage = 2, divisor = None\<rparr>)
   \<and> fst (calls mul_step 3 \<lparr>accumulator = 20, multiplier = 0, multiplicand = 5, stage = 1,
                             divisor = None\<rparr>) = replicate 3 (Inr True)"
  using mul_step_idle_keeps_product
    [of "\<lparr>accumulator = 20, multiplier = 0, multiplicand = 5, stage = 1, divisor = None\<rparr>"
        3 4 5 False False new_multdiv]
  by simp

text \<open>
  Where the unmasked store of \<^verbatim>\<open>div_step\<close> has left an integer outside \<open>[0, 2^64)\<close> in the
  accumulator, \<^verbatim>\<open>mul_step\<close> stores the same 64 bits back as an integer within the range.
\<close>

lemma mul_step_masks_wide_accumulator:
  "div_init 0xC0000000 0x20000000 False new_multdiv
     = Some \<lparr>accumulator = 0xC000000000000000, multiplier = 0, multiplicand = 0, stage = 2,
             divisor = Some 0x80000000\<rparr>
   \<and> div_step \<lparr>accumulator = 0xC000000000000000, multiplier = 0, multiplicand = 0, stage = 2,
               divisor = Some 0x80000000\<rparr>
     = (Inr False, \<lparr>accumulator = - 0xBFFFFFFFFFFFFFFC, multiplier = 0, multiplicand = 0,
                    stage = 1, divisor = Some 0x40000000\<rparr>)
   \<and> mul_step \<lparr>accumulator = - 0xBFFFFFFFFFFFFFFC, multiplier = 0, multiplicand = 0,
                stage = 1, divisor = Some 0x40000000\<rparr>
     = (Inr True, \<lparr>accumulator = 0x4000000000000004, multiplier = 0, multiplicand = 0,
                   stage = 2, divisor = Some 0x40000000\<rparr>)"
  by code_simp

end
